theory Spec2Isabelle
  imports Main "HOL-Library.Word" "HOL-Library.Monad_Syntax"
begin

section \<open>The per-client Control of the relay server (server/serControl.go)\<close>

text \<open>
  The development follows the source file function by function. Goroutines are modelled
  one at a time: what a goroutine receives from a channel, a ticker, the clock or an I/O
  call is an argument or an event of its model, and what it does to memory is explicit
  state passing on the record \<open>Control\<close>.
\<close>

subsection \<open>Tunables\<close>

definition maxIdlePipes :: int where "maxIdlePipes = 3"
definition maxStreams :: int where "maxStreams = 6"

text \<open>A \<open>time.Duration\<close> is a number of nanoseconds.\<close>

definition Second :: int where "Second = 1000000000"
definition pingInterval :: int where "pingInterval = Second * 8"
definition pingTimeout :: int where "pingTimeout = Second * 15"
definition cleanInterval :: int where "cleanInterval = Second * 5"

text \<open>Capacity of \<open>writeChan\<close>, as \<open>NewControl\<close> makes it.\<close>

definition writeChanCap :: nat where "writeChanCap = 128"

subsection \<open>Data\<close>

type_synonym addr = nat
type_synonym sid = nat
type_synonym byte = "8 word"
type_synonym UUID = "byte list"

text \<open>
  Modelled from the spec: the message types and bodies of package \<open>msg\<close>, which is not
  among the sources (section 6 of the specification lists them).
\<close>

datatype MsgType =
    TypeClientKeyExchange | TypeServerKeyExchange | TypeClientID
  | TypePipeReq | TypeSyncTunnels | TypePing | TypePong | TypeOther nat

datatype msgBody =
    NilBody
  | CipherKeyExchange "byte list"
  | ClientIDExchange UUID
  | SyncTunnels "(string \<times> string) list"

record writeReq =
  mType :: MsgType
  body :: msgBody

text \<open>
  What a goroutine can run into: a \<open>panic\<close> call, the dereference of a nil pointer, a
  failed type assertion. An \<open>error\<close> is Go's error value, with the text it was wrapped in.
\<close>

datatype fault = Panic string | NilDereference | BadTypeAssertion

datatype error = Error string

definition Wrap :: "error \<Rightarrow> string \<Rightarrow> error" where
  "Wrap e m = (case e of Error s \<Rightarrow> Error (m @ '': '' @ s))"

text \<open>
  A \<open>*pipeNode\<close> is an address into the node store (\<open>None\<close> is nil); the field \<open>next\<close>
  of the source is \<open>nxt\<close> here. A \<open>*smux.Session\<close> is a session identifier; what the
  multiplexer reports about a session (\<open>IsClosed()\<close>, \<open>NumStreams()\<close>, the latter being
  the size of its stream table) is kept in the session table of the model.
\<close>

record pipeNode =
  prev :: "addr option"
  nxt :: "addr option"
  pipe :: sid

record session =
  isClosed :: bool
  numStreams :: nat

record Tunnel =
  localAddress :: string
  remoteAddress :: string
  listenerClosed :: bool

text \<open>
  The unbuffered channel \<open>toDie\<close> has one receiver, the moderator: nobody receives
  (\<open>NoReceiver\<close>), the moderator is blocked in its receive (\<open>Receiving\<close>), or an
  offer has been taken and the moderator goes on (\<open>Handed\<close>).
\<close>

datatype rendezvous = NoReceiver | Receiving | Handed

text \<open>
  The struct \<open>Control\<close>. \<open>heap\<close> (the node store: \<open>&pipeNode{...}\<close> takes the next free
  address, \<open>length heap\<close>) and \<open>sessions\<close> (the session table) are the memory the struct
  points into. \<open>die\<close> is true once the channel is closed. \<open>writeChan\<close> is the queue of the buffered
  channel, oldest first. \<open>ctlConnClosed\<close> and \<open>ctlConnOut\<close> (the frames handed to
  \<open>msg.WriteMsg\<close>) stand for \<open>ctlConn\<close>. The rendezvous channels \<open>pipeAdd\<close> and
  \<open>pipeGet\<close> carry no state: their transfers are events of the pipe manager.
\<close>

record Control =
  heap :: "pipeNode list"
  sessions :: "sid \<Rightarrow> session"
  ctlConnClosed :: bool
  ctlConnOut :: "writeReq list"
  tunnels :: "Tunnel list"
  preMasterSecret :: "byte list"
  lastRead :: "64 word"
  encryptMode :: string
  busyPipes :: "addr option"
  idleCount :: int
  idlePipes :: "addr option"
  die :: bool
  toDie :: rendezvous
  writeChan :: "writeReq list"
  ClientID :: UUID

definition NewControl :: "string \<Rightarrow> Control" where
  "NewControl mode =
     \<lparr> heap = [], sessions = (\<lambda>_. \<lparr>isClosed = False, numStreams = 0\<rparr>),
       ctlConnClosed = False, ctlConnOut = [], tunnels = [], preMasterSecret = [],
       lastRead = 0, encryptMode = mode, busyPipes = None, idleCount = 0,
       idlePipes = None, die = False, toDie = NoReceiver, writeChan = [], ClientID = [] \<rparr>"

subsection \<open>The two pipe lists\<close>

text \<open>
  \<open>addIdlePipe\<close> and \<open>addBusyPipe\<close> have the same body up to the head field they
  write, and so have \<open>removeIdleNode\<close> and \<open>removeBusyNode\<close>; the shared bodies are
  \<open>linkFront\<close> and \<open>unlinkNode\<close>, on the node store and the head pointer. Every field
  is read from the store as it is at that statement.
\<close>

definition linkFront :: "sid \<Rightarrow> pipeNode list \<times> addr option \<Rightarrow> pipeNode list \<times> addr option" where
  "linkFront p = (\<lambda>(h, hp).
     let pNode = length h;
         h1 = h @ [\<lparr>prev = None, nxt = None, pipe = p\<rparr>];
         h2 = (case hp of
                 None \<Rightarrow> h1
               | Some a \<Rightarrow>
                   (let h' = h1[a := (h1 ! a)\<lparr>prev := Some pNode\<rparr>]
                    in h'[pNode := (h' ! pNode)\<lparr>nxt := hp\<rparr>]))
     in (h2, Some pNode))"

definition unlinkNode :: "addr \<Rightarrow> pipeNode list \<times> addr option \<Rightarrow> pipeNode list \<times> addr option" where
  "unlinkNode pNode = (\<lambda>(h, hp).
     case prev (h ! pNode) of
       None \<Rightarrow>
         (let hp' = nxt (h ! pNode)
          in case hp' of
               None \<Rightarrow> (h, hp')
             | Some b \<Rightarrow> (h[b := (h ! b)\<lparr>prev := None\<rparr>], hp'))
     | Some q \<Rightarrow>
         (let h1 = h[q := (h ! q)\<lparr>nxt := nxt (h ! pNode)\<rparr>]
          in case nxt (h1 ! pNode) of
               None \<Rightarrow> (h1, hp)
             | Some b \<Rightarrow> (h1[b := (h1 ! b)\<lparr>prev := prev (h1 ! pNode)\<rparr>], hp)))"

definition addIdlePipe :: "sid \<Rightarrow> Control \<Rightarrow> Control" where
  "addIdlePipe p c =
     (case linkFront p (heap c, idlePipes c) of
        (h, hp) \<Rightarrow> c\<lparr>heap := h, idlePipes := hp, idleCount := idleCount c + 1\<rparr>)"

definition addBusyPipe :: "sid \<Rightarrow> Control \<Rightarrow> Control" where
  "addBusyPipe p c =
     (case linkFront p (heap c, busyPipes c) of
        (h, hp) \<Rightarrow> c\<lparr>heap := h, busyPipes := hp\<rparr>)"

definition removeIdleNode :: "addr \<Rightarrow> Control \<Rightarrow> Control" where
  "removeIdleNode pNode c =
     (case unlinkNode pNode (heap c, idlePipes c) of
        (h, hp) \<Rightarrow> c\<lparr>heap := h, idlePipes := hp, idleCount := idleCount c - 1\<rparr>)"

definition removeBusyNode :: "addr \<Rightarrow> Control \<Rightarrow> Control" where
  "removeBusyNode pNode c =
     (case unlinkNode pNode (heap c, busyPipes c) of
        (h, hp) \<Rightarrow> c\<lparr>heap := h, busyPipes := hp\<rparr>)"

text \<open>The session of a node, and what the multiplexer reports about it.\<close>

definition pipeOf :: "Control \<Rightarrow> addr \<Rightarrow> sid" where
  "pipeOf c a = pipe (heap c ! a)"

definition IsClosed :: "Control \<Rightarrow> sid \<Rightarrow> bool" where
  "IsClosed c p = isClosed (sessions c p)"

definition NumStreams :: "Control \<Rightarrow> sid \<Rightarrow> int" where
  "NumStreams c p = int (numStreams (sessions c p))"

definition sessionClose :: "sid \<Rightarrow> Control \<Rightarrow> Control" where
  "sessionClose p c = c\<lparr>sessions := (sessions c)(p := (sessions c p)\<lparr>isClosed := True\<rparr>)\<rparr>"

subsection \<open>clean and getIdleFast\<close>

text \<open>
  The loops walk \<open>next\<close> pointers, so they end only if the chain does: they are partial
  functions, \<open>None\<close> standing for a walk that does not end. The cursor moves on through
  the \<open>next\<close> field of the node it has just unlinked, as in the source.
\<close>

partial_function (option) cleanBusyLoop :: "addr option \<Rightarrow> Control \<Rightarrow> Control option" where
  "cleanBusyLoop busy c =
     (case busy of
        None \<Rightarrow> Some c
      | Some a \<Rightarrow>
          (let c1 = (if IsClosed c (pipeOf c a) then removeBusyNode a c
                     else if NumStreams c (pipeOf c a) < maxStreams
                     then (let c' = removeBusyNode a c in addIdlePipe (pipeOf c' a) c')
                     else c)
           in cleanBusyLoop (nxt (heap c1 ! a)) c1))"

partial_function (option) cleanIdleLoop :: "addr option \<Rightarrow> Control \<Rightarrow> Control option" where
  "cleanIdleLoop idle c =
     (case idle of
        None \<Rightarrow> Some c
      | Some a \<Rightarrow>
          (let c1 = (if IsClosed c (pipeOf c a) then removeIdleNode a c
                     else if NumStreams c (pipeOf c a) = 0 \<and> idleCount c > maxIdlePipes
                     then (let c' = removeIdleNode a c in sessionClose (pipeOf c' a) c')
                     else c)
           in cleanIdleLoop (nxt (heap c1 ! a)) c1))"

definition clean :: "Control \<Rightarrow> Control option" where
  "clean c = do {
     c1 \<leftarrow> cleanBusyLoop (busyPipes c) c;
     cleanIdleLoop (idlePipes c1) c1
   }"

partial_function (option) getIdleFastLoop ::
    "addr option \<Rightarrow> Control \<Rightarrow> (addr option \<times> Control) option" where
  "getIdleFastLoop idle c =
     (case idle of
        None \<Rightarrow> Some (None, c)
      | Some a \<Rightarrow>
          if IsClosed c (pipeOf c a)
          then (let c1 = removeIdleNode a c in getIdleFastLoop (nxt (heap c1 ! a)) c1)
          else Some (Some a, removeIdleNode a c))"

definition getIdleFast :: "Control \<Rightarrow> (addr option \<times> Control) option" where
  "getIdleFast c = getIdleFastLoop (idlePipes c) c"

subsection \<open>pipeManage\<close>

text \<open>
  A send on \<open>writeChan\<close> outside a \<open>select\<close> waits while the queue is full: \<open>None\<close>
  is the send that does not return.
\<close>

definition sendWriteChan :: "writeReq \<Rightarrow> Control \<Rightarrow> Control option" where
  "sendWriteChan m c =
     (if length (writeChan c) < writeChanCap then Some (c\<lparr>writeChan := writeChan c @ [m]\<rparr>)
      else None)"

text \<open>
  The manager is at one of three places: at the label \<open>Prepare\<close> (the head of the loop
  body), in the inner \<open>select\<close> that waits for a pipe, or in the \<open>select\<close> at the label
  \<open>Available\<close>; or it has returned. Its local variable \<open>available\<close> is carried along.
\<close>

datatype pmLoc = AtPrepare | AtWait | AtAvailable | Returned

datatype pmEvent = TickerC | PipeGetTimeout | PipeAdd sid | PipeGet | DieClosed

record manager =
  loc :: pmLoc
  available :: "sid option"

text \<open>
  From \<open>Prepare\<close> to the next \<open>select\<close> (lines 200 to 239). The send of the
  \<open>PIPE_REQ\<close> frame stands between the second \<open>getIdleFast\<close> and the test of its result.
\<close>

definition prepare :: "manager \<times> Control \<Rightarrow> (manager \<times> Control) option" where
  "prepare = (\<lambda>(m, c).
     if available m = None \<or> IsClosed c (the (available m)) then do {
       (idle, c1) \<leftarrow> getIdleFast c;
       (case idle of
          None \<Rightarrow> do {
            c2 \<leftarrow> clean c1;
            (idle', c3) \<leftarrow> getIdleFast c2;
            c4 \<leftarrow> sendWriteChan \<lparr>mType = TypePipeReq, body = NilBody\<rparr> c3;
            (case idle' of
               None \<Rightarrow> Some (\<lparr>loc = AtWait, available = None\<rparr>, c4)
             | Some a \<Rightarrow> Some (\<lparr>loc = AtAvailable, available = Some (pipeOf c4 a)\<rparr>, c4))
          }
        | Some a \<Rightarrow> Some (\<lparr>loc = AtAvailable, available = Some (pipeOf c1 a)\<rparr>, c1))
     } else Some (m\<lparr>loc := AtAvailable\<rparr>, c))"






subsection \<open>putPipe, getPipe\<close>

text \<open>
  Each is one \<open>select\<close> between a rendezvous with the manager and \<open>die\<close>. The first
  argument says whether the manager takes part: \<open>putPipe\<close> then yields the manager's
  event, \<open>getPipe\<close> the session handed over. Without the manager the \<open>die\<close> case runs
  if \<open>die\<close> is closed, and otherwise the call waits (\<open>None\<close>).
\<close>

definition putPipe :: "bool \<Rightarrow> sid \<Rightarrow> Control \<Rightarrow> (pmEvent list \<times> Control) option" where
  "putPipe taken p c =
     (if taken then Some ([PipeAdd p], c)
      else if die c then Some ([], sessionClose p c)
      else None)"

definition getPipe :: "sid option \<Rightarrow> Control \<Rightarrow> sid option option" where
  "getPipe handed c =
     (case handed of
        Some p \<Rightarrow> Some (Some p)
      | None \<Rightarrow> if die c then Some None else None)"

subsection \<open>Close, moderator\<close>

definition panic :: "string \<Rightarrow> fault + unit" where
  "panic s = Inl (Panic s)"

text \<open>The \<open>select\<close> with a \<open>default\<close> case: the offer is taken only by a waiting receiver.\<close>

definition offerToDie :: "Control \<Rightarrow> Control" where
  "offerToDie c = (if toDie c = Receiving then c\<lparr>toDie := Handed\<rparr> else c)"

definition Close :: "Control \<Rightarrow> fault + Control" where
  "Close c =
     (case panic ''closing'' of
        Inl f \<Rightarrow> Inl f
      | Inr _ \<Rightarrow> Inr (offerToDie c))"



subsection \<open>writeLoop\<close>

text \<open>
  How a goroutine goes on after a step: with the next iteration, parked in a channel
  operation, returned, or stopped by a fault.
\<close>

datatype flow = Continue | Parked | Return | Faulted fault

record writer =
  lastWrite :: int
  idx :: int

text \<open>
  One iteration that receives from \<open>writeChan\<close>. \<open>t1\<close> is the clock at the test of
  line 341, \<open>t2\<close> the clock at line 348 (times are nanoseconds), \<open>r\<close> the result of
  \<open>msg.WriteMsg\<close>.
\<close>

definition writeStep :: "int \<Rightarrow> int \<Rightarrow> error option \<Rightarrow> writer \<times> Control \<Rightarrow> flow \<times> writer \<times> Control" where
  "writeStep t1 t2 r = (\<lambda>(w, c).
     case writeChan c of
       [] \<Rightarrow> (Parked, w, c)
     | msgBody # rest \<Rightarrow>
         (let c1 = c\<lparr>writeChan := rest\<rparr> in
          if (mType msgBody = TypePing \<or> mType msgBody = TypePong)
             \<and> t1 < lastWrite w + pingInterval div 2
          then (Continue, w, c1)
          else
            (let w1 = (if mType msgBody = TypePipeReq then w\<lparr>idx := idx w + 1\<rparr> else w);
                 w2 = w1\<lparr>lastWrite := t2\<rparr>;
                 c2 = c1\<lparr>ctlConnOut := ctlConnOut c1 @ [msgBody]\<rparr>
             in case r of
                  Some err \<Rightarrow>
                    (case Close c2 of
                       Inl f \<Rightarrow> (Faulted f, w2, c2)
                     | Inr c3 \<Rightarrow> (Return, w2, c3))
                | None \<Rightarrow> (Continue, w2, c2))))"

datatype wlEvent = WlRecv int int "error option" | WlDie

fun writeLoopFrom :: "wlEvent list \<Rightarrow> writer \<times> Control \<Rightarrow> flow \<times> writer \<times> Control" where
  "writeLoopFrom [] (w, c) = (Parked, w, c)"
| "writeLoopFrom (WlDie # evs) (w, c) = (Return, w, c)"
| "writeLoopFrom (WlRecv t1 t2 r # evs) (w, c) =
     (case writeStep t1 t2 r (w, c) of
        (Continue, w', c') \<Rightarrow> writeLoopFrom evs (w', c')
      | res \<Rightarrow> res)"

definition writeLoop :: "int \<Rightarrow> wlEvent list \<Rightarrow> Control \<Rightarrow> flow \<times> writer \<times> Control" where
  "writeLoop now evs c = writeLoopFrom evs (\<lparr>lastWrite = now, idx = 0\<rparr>, c)"

subsection \<open>Serve: the keepalive scheduler\<close>

text \<open>
  \<open>SvTick now dieFirst\<close>: the ticker fires, the clock reads \<open>now\<close>, and \<open>dieFirst\<close> says
  that the inner \<open>select\<close> takes its \<open>die\<close> case. \<open>SvInbound now\<close> is \<open>recvLoop\<close>
  storing \<open>lastRead\<close> for a frame that came in. \<open>SvDie\<close> is the \<open>die\<close> case of the outer
  \<open>select\<close>. The subtraction is the one of \<open>uint64\<close>.
\<close>

datatype svEvent = SvTick int bool | SvInbound int | SvDie

definition tickStep :: "int \<Rightarrow> bool \<Rightarrow> Control \<Rightarrow> flow \<times> Control" where
  "tickStep now dieFirst c =
     (if (word_of_int now :: 64 word) - lastRead c > word_of_int pingTimeout
      then (case Close c of
              Inl f \<Rightarrow> (Faulted f, c)
            | Inr c' \<Rightarrow> (Return, c'))
      else if dieFirst then (Return, c)
      else if length (writeChan c) < writeChanCap
      then (Continue, c\<lparr>writeChan := writeChan c @ [\<lparr>mType = TypePing, body = NilBody\<rparr>]\<rparr>)
      else (Parked, c))"

fun ServeFrom :: "svEvent list \<Rightarrow> Control \<Rightarrow> flow \<times> Control" where
  "ServeFrom [] c = (Parked, c)"
| "ServeFrom (SvDie # evs) c = (Return, c)"
| "ServeFrom (SvInbound now # evs) c = ServeFrom evs (c\<lparr>lastRead := word_of_int now\<rparr>)"
| "ServeFrom (SvTick now dieFirst # evs) c =
     (case tickStep now dieFirst c of
        (Continue, c') \<Rightarrow> ServeFrom evs c'
      | res \<Rightarrow> res)"

text \<open>\<open>Serve\<close> starts the moderator, which parks in its receive on \<open>toDie\<close>.\<close>

definition Serve :: "svEvent list \<Rightarrow> Control \<Rightarrow> flow \<times> Control" where
  "Serve evs c = ServeFrom evs (c\<lparr>toDie := Receiving\<rparr>)"

subsection \<open>The goroutine of an accepted connection (ServerSyncTunnels, lines 411 to 439)\<close>



subsection \<open>The handshakes\<close>

text \<open>
  The registry \<open>ControlMap\<close> maps a client identifier to a \<open>*Control\<close>, an address
  into the store of Controls. The calls into \<open>msg\<close>, \<open>crypto\<close> and \<open>smux\<close> are the
  fields of \<open>handshakeIO\<close>: what each returns in this run.
\<close>

type_synonym registry = "UUID \<rightharpoonup> nat"





record pipeIO =
  NewPrf12 :: "byte list \<Rightarrow> UUID \<Rightarrow> byte list \<Rightarrow> byte list"
  NewCryptoConn :: "byte list \<Rightarrow> error option"
  smuxClient :: "error + sid"

record PipeClientHello =
  helloClientID :: UUID
  Once :: "byte list"

text \<open>
  The result names the Control and the session of the final \<open>ctl.putPipe(sess)\<close>, if the
  function gets there. \<open>ctls\<close> is the store of Controls.
\<close>

definition PipeHandShake ::
    "pipeIO \<Rightarrow> PipeClientHello \<Rightarrow> registry \<Rightarrow> (nat \<Rightarrow> Control)
       \<Rightarrow> fault + (error option \<times> (nat \<times> sid) option)" where
  "PipeHandShake io phs ControlMap ctls =
     (case ControlMap (helloClientID phs) of
        None \<Rightarrow> Inl NilDereference
      | Some ctl \<Rightarrow>
          if encryptMode (ctls ctl) \<noteq> ''none'' then
            (let masterKey = NewPrf12 io (preMasterSecret (ctls ctl)) (helloClientID phs) (Once phs)
             in case NewCryptoConn io masterKey of
                  Some err \<Rightarrow> Inr (Some (Wrap err ''crypto.NewCryptoConn''), None)
                | None \<Rightarrow>
                    (case smuxClient io of
                       Inl err \<Rightarrow> Inr (Some (Wrap err ''smux.Client''), None)
                     | Inr sess \<Rightarrow> Inr (None, Some (ctl, sess))))
          else
            (case smuxClient io of
               Inl err \<Rightarrow> Inr (Some (Wrap err ''smux.Client''), None)
             | Inr sess \<Rightarrow> Inr (None, Some (ctl, sess))))"

subsection \<open>The pipe lists as lists of nodes\<close>

text \<open>
  What the properties below speak about. \<open>dseg h pr p as q\<close>: in the store \<open>h\<close> the
  \<open>next\<close> pointers lead from \<open>p\<close> through exactly the nodes \<open>as\<close> to \<open>q\<close>, and the
  \<open>prev\<close> pointers lead back, \<open>pr\<close> being the \<open>prev\<close> of the first node.
\<close>

fun dseg :: "pipeNode list \<Rightarrow> addr option \<Rightarrow> addr option \<Rightarrow> addr list \<Rightarrow> addr option \<Rightarrow> bool" where
  "dseg h pr p [] q = (p = q)"
| "dseg h pr p (a # as) q =
     (p = Some a \<and> a < length h \<and> prev (h ! a) = pr \<and> dseg h (Some a) (nxt (h ! a)) as q)"

definition headp :: "addr list \<Rightarrow> addr option" where
  "headp as = (case as of [] \<Rightarrow> None | a # _ \<Rightarrow> Some a)"

definition lastp :: "addr option \<Rightarrow> addr list \<Rightarrow> addr option" where
  "lastp pr as = (if as = [] then pr else Some (last as))"

text \<open>
  The nodes reachable from a head pointer, by at most \<open>n\<close> steps along \<open>next\<close>; a chain
  without a repeated node has no more nodes than the store. \<open>None\<close>: the chain leaves the
  store or does not end within \<open>n\<close> steps.
\<close>

fun nodesFrom :: "nat \<Rightarrow> pipeNode list \<Rightarrow> addr option \<Rightarrow> addr list option" where
  "nodesFrom n h None = Some []"
| "nodesFrom 0 h (Some a) = None"
| "nodesFrom (Suc n) h (Some a) =
     (if a < length h then map_option ((#) a) (nodesFrom n h (nxt (h ! a))) else None)"

definition idleNodes :: "Control \<Rightarrow> addr list option" where
  "idleNodes c = nodesFrom (length (heap c)) (heap c) (idlePipes c)"

definition busyNodes :: "Control \<Rightarrow> addr list option" where
  "busyNodes c = nodesFrom (length (heap c)) (heap c) (busyPipes c)"



text \<open>
  The state the manager keeps its lists in: \<open>idlePipes\<close> and \<open>busyPipes\<close> head two
  well-linked lists that share no node, and \<open>idleCount\<close> is the length of the first.
  \<open>poolInv\<close> names the two node lists, \<open>poolOK\<close> computes them. \<open>countOK\<close> is the
  part about the counter alone.
\<close>

definition poolInv :: "Control \<Rightarrow> addr list \<Rightarrow> addr list \<Rightarrow> bool" where
  "poolInv c ids bs \<longleftrightarrow>
     dseg (heap c) None (idlePipes c) ids None \<and> dseg (heap c) None (busyPipes c) bs None
     \<and> distinct (ids @ bs) \<and> idleCount c = int (length ids)"

definition poolOK :: "Control \<Rightarrow> bool" where
  "poolOK c =
     (case idleNodes c of
        None \<Rightarrow> False
      | Some ids \<Rightarrow>
          (case busyNodes c of
             None \<Rightarrow> False
           | Some bs \<Rightarrow> poolInv c ids bs))"

definition countOK :: "Control \<Rightarrow> bool" where
  "countOK c = (case idleNodes c of None \<Rightarrow> False | Some ids \<Rightarrow> idleCount c = int (length ids))"

subsection \<open>What clean and getIdleFast do, on lists of sessions\<close>

text \<open>
  \<open>closedAt\<close> and \<open>keepAt\<close> are the tests of the loops on a node. \<open>busyKeep\<close> and
  \<open>busyMove\<close> are the two ways a session leaves the scan of \<open>busyPipes\<close> in a list, and
  \<open>scanIdle\<close> is the scan of \<open>idlePipes\<close>: from the session table, the counter and the
  sessions of the list it gives the new table, the new counter and the sessions that stay.
\<close>

definition closedAt :: "Control \<Rightarrow> addr \<Rightarrow> bool" where
  "closedAt c a = IsClosed c (pipeOf c a)"

definition busyKeep :: "(sid \<Rightarrow> session) \<Rightarrow> sid \<Rightarrow> bool" where
  "busyKeep st p \<longleftrightarrow> \<not> isClosed (st p) \<and> \<not> int (numStreams (st p)) < maxStreams"

definition busyMove :: "(sid \<Rightarrow> session) \<Rightarrow> sid \<Rightarrow> bool" where
  "busyMove st p \<longleftrightarrow> \<not> isClosed (st p) \<and> int (numStreams (st p)) < maxStreams"

definition keepAt :: "Control \<Rightarrow> addr \<Rightarrow> bool" where
  "keepAt c a = busyKeep (sessions c) (pipeOf c a)"

definition movedOf :: "Control \<Rightarrow> addr list \<Rightarrow> sid list" where
  "movedOf c bs = filter (busyMove (sessions c)) (map (pipeOf c) bs)"

fun scanIdle :: "(sid \<Rightarrow> session) \<Rightarrow> int \<Rightarrow> sid list \<Rightarrow> (sid \<Rightarrow> session) \<times> int \<times> sid list" where
  "scanIdle st n [] = (st, n, [])"
| "scanIdle st n (p # ps) =
     (if isClosed (st p) then scanIdle st (n - 1) ps
      else if int (numStreams (st p)) = 0 \<and> n > maxIdlePipes
      then scanIdle (st(p := (st p)\<lparr>isClosed := True\<rparr>)) (n - 1) ps
      else (case scanIdle st n ps of (st', n', ps') \<Rightarrow> (st', n', p # ps')))"

subsection \<open>Sequences of operations on the lists\<close>

text \<open>
  The operations of the manager on its lists, and \<open>MuxReports\<close>: the multiplexer
  changes what it reports about the sessions. \<open>runOps\<close> gives the state after each
  operation. The source calls \<open>removeIdleNode\<close> only with the cursor of a walk through
  \<open>idlePipes\<close>: \<open>admissible\<close> asks that of every \<open>RemoveIdleNode\<close> in a sequence.
\<close>

datatype poolOp =
    AddIdlePipe sid | AddBusyPipe sid | RemoveIdleNode addr | GetIdleFast | Clean
  | MuxReports "sid \<Rightarrow> session"

fun applyOp :: "poolOp \<Rightarrow> Control \<Rightarrow> Control option" where
  "applyOp (AddIdlePipe p) c = Some (addIdlePipe p c)"
| "applyOp (AddBusyPipe p) c = Some (addBusyPipe p c)"
| "applyOp (RemoveIdleNode a) c = Some (removeIdleNode a c)"
| "applyOp GetIdleFast c = map_option snd (getIdleFast c)"
| "applyOp Clean c = clean c"
| "applyOp (MuxReports st) c = Some (c\<lparr>sessions := st\<rparr>)"

fun runOps :: "poolOp list \<Rightarrow> Control \<Rightarrow> Control list option" where
  "runOps [] c = Some []"
| "runOps (x # xs) c =
     (case applyOp x c of
        None \<Rightarrow> None
      | Some c' \<Rightarrow> map_option ((#) c') (runOps xs c'))"

definition linked :: "poolOp \<Rightarrow> Control \<Rightarrow> bool" where
  "linked x c =
     (case x of
        RemoveIdleNode a \<Rightarrow> (case idleNodes c of None \<Rightarrow> False | Some ids \<Rightarrow> a \<in> set ids)
      | _ \<Rightarrow> True)"

fun admissible :: "poolOp list \<Rightarrow> Control \<Rightarrow> bool" where
  "admissible [] c = True"
| "admissible (x # xs) c =
     (linked x c \<and> (case applyOp x c of None \<Rightarrow> True | Some c' \<Rightarrow> admissible xs c'))"


text \<open>The unfolding equations of the loops serve as code equations.\<close>

declare getIdleFastLoop.simps [code]

declare cleanBusyLoop.simps [code]

declare cleanIdleLoop.simps [code]


section \<open>Properties\<close>

subsection \<open>Close\<close>

text \<open>
  C2. Every call to \<open>Close()\<close> is to make a non-blocking offer on \<open>toDie\<close> and return
  normally. The source does neither: the first statement of \<open>Close\<close> is
  \<open>panic("closing")\<close>, so for every Control the call ends in that panic and the offer
  behind it is never reached.
\<close>

theorem Close_panics: "Close c = Inl (Panic ''closing'')"
  by (simp add: Close_def panic_def)

subsection \<open>The keepalive scheduler\<close>

text \<open>
  C6. On a tick at which the time since the last inbound frame exceeds \<open>pingTimeout\<close>
  the scheduler is to request close, so that the Control starts closing. In the source
  the request is the call of \<open>Close\<close>, which panics: with the last frame at time 0 and
  the tick at 16 s the scheduler stops in the panic, \<open>toDie\<close> still has its receiver
  waiting, and \<open>die\<close> is not closed.
\<close>

theorem Serve_deadline_miss_panics:
  "Serve [SvInbound 0, SvTick 16000000000 False] (NewControl ''none'')
     = (Faulted (Panic ''closing''),
        (NewControl ''none'')\<lparr>toDie := Receiving, lastRead := 0\<rparr>)"
  by (simp add: Serve_def tickStep_def Close_def panic_def NewControl_def
      pingTimeout_def Second_def)

subsection \<open>writeLoop\<close>



subsection \<open>The goroutine of an accepted connection\<close>


subsection \<open>The handshakes\<close>



text \<open>
  C10. \<open>PipeHandShake\<close> reads the registry and uses the result without a presence
  check: for a hello whose \<open>ClientID\<close> is not registered the lookup gives nil and the
  read of \<open>ctl.encryptMode\<close> is a nil dereference, not an error return.
\<close>

theorem PipeHandShake_unregistered:
  "ControlMap (helloClientID phs) = None
     \<Longrightarrow> PipeHandShake io phs ControlMap ctls = Inl NilDereference"
  by (simp add: PipeHandShake_def)

theorem PipeHandShake_unregistered_witness:
  "PipeHandShake \<lparr>NewPrf12 = (\<lambda>_ _ _. []), NewCryptoConn = (\<lambda>_. None), smuxClient = Inr 0\<rparr>
     \<lparr>helloClientID = [1, 2], Once = []\<rparr> Map.empty (\<lambda>_. NewControl ''none'')
   = Inl NilDereference"
  using PipeHandShake_unregistered [of Map.empty "\<lparr>helloClientID = [1, 2], Once = []\<rparr>"
      "\<lparr>NewPrf12 = (\<lambda>_ _ _. []), NewCryptoConn = (\<lambda>_. None), smuxClient = Inr 0\<rparr>"
      "\<lambda>_. NewControl ''none''"]
  by simp

subsection \<open>Lists in the node store\<close>

lemma headp_simps [simp]: "headp [] = None" "headp (a # as) = Some a"
  by (simp_all add: headp_def)

lemma lastp_simps [simp]: "lastp pr [] = pr" "lastp pr (as @ [a]) = Some a"
  "lastp pr (a # as) = lastp (Some a) as"
  by (simp_all add: lastp_def)

lemma dseg_headp: "dseg h pr p as None \<Longrightarrow> p = headp as"
  by (cases as) simp_all

lemma dseg_bound: "dseg h pr p as q \<Longrightarrow> a \<in> set as \<Longrightarrow> a < length h"
  by (induction as arbitrary: pr p) auto

lemma dseg_append:
  "dseg h pr p (as @ bs) q = (\<exists>m. dseg h pr p as m \<and> dseg h (lastp pr as) m bs q)"
  by (induction as arbitrary: pr p) auto

lemma dseg_frame:
  assumes "\<And>a. a \<in> set as \<Longrightarrow> nxt (h' ! a) = nxt (h ! a) \<and> prev (h' ! a) = prev (h ! a)"
    and "length h \<le> length h'"
  shows "dseg h pr p as q \<Longrightarrow> dseg h' pr p as q"
  using assms by (induction as arbitrary: pr p) auto

lemma dseg_update_other [simp]:
  "b \<notin> set as \<Longrightarrow> dseg (h[b := v]) pr p as q = dseg h pr p as q"
  by (induction as arbitrary: pr p) auto

lemma dseg_heap_append:
  "dseg h pr p as q \<Longrightarrow> dseg (h @ xs) pr p as q"
  by (induction as arbitrary: pr p) (auto simp: nth_append)

lemma dseg_same:
  "dseg h pr p as q \<Longrightarrow> length h \<le> length h' \<Longrightarrow> (\<And>a. a \<in> set as \<Longrightarrow> h' ! a = h ! a)
     \<Longrightarrow> dseg h' pr p as q"
  by (rule dseg_frame) auto

lemma dseg_nxt_mid: "dseg h pr p (pre @ a # post) None \<Longrightarrow> nxt (h ! a) = headp post"
  by (auto simp: dseg_append dest: dseg_headp)

text \<open>Unlinking a node of a list leaves the list without it; the node keeps its \<open>next\<close>.\<close>

lemma unlinkNode_list:
  assumes seg: "dseg h None hp (pre @ a # post) None"
    and dist: "distinct (pre @ a # post)"
    and un: "unlinkNode a (h, hp) = (h', hp')"
  shows "dseg h' None hp' (pre @ post) None \<and> length h' = length h
       \<and> nxt (h' ! a) = headp post
       \<and> (\<forall>b. pipe (h' ! b) = pipe (h ! b))
       \<and> (\<forall>b. b \<notin> set (pre @ post) \<longrightarrow> h' ! b = h ! b)"
proof -
  from seg obtain m where 1: "dseg h None hp pre m"
    and 2: "dseg h (lastp None pre) m (a # post) None"
    using dseg_append by blast
  from 2 have m: "m = Some a" and al: "a < length h" and pa: "prev (h ! a) = lastp None pre"
    and 3: "dseg h (Some a) (nxt (h ! a)) post None"
    by auto
  have na: "nxt (h ! a) = headp post"
    using 3 dseg_headp by blast
  show ?thesis
  proof (cases pre rule: rev_cases)
    case Nil
    with 1 m pa have hp: "hp = Some a" and pa': "prev (h ! a) = None"
      by auto
    show ?thesis
    proof (cases post)
      case Nil
      with un pa' na Nil \<open>pre = []\<close> show ?thesis
        by (simp add: unlinkNode_def)
    next
      case (Cons b post')
      with 3 have bl: "b < length h" and 4: "dseg h (Some b) (nxt (h ! b)) post' None"
        by auto
      from dist Cons have nb: "b \<notin> set post'" "a \<noteq> b"
        by auto
      from un pa' na Cons have h': "h' = h[b := (h ! b)\<lparr>prev := None\<rparr>]" and hp': "hp' = Some b"
        by (auto simp: unlinkNode_def)
      have "dseg h' (Some b) (nxt (h ! b)) post' None"
        using 4 nb by (simp add: h')
      then show ?thesis
        using bl nb na Cons \<open>pre = []\<close>
        by (auto simp: h' hp' nth_list_update)
    qed
  next
    case (snoc pre' q)
    with pa have pq: "prev (h ! a) = Some q"
      by simp
    from 1 snoc obtain m' where 5: "dseg h None hp pre' m'"
      and 6: "dseg h (lastp None pre') m' [q] (Some a)"
      using dseg_append m by blast
    from 6 have ql: "q < length h" and pq': "prev (h ! q) = lastp None pre'" and m': "m' = Some q"
      by auto
    from dist snoc have nq: "q \<notin> set pre'" "q \<noteq> a" "q \<notin> set post" "a \<notin> set pre'" "a \<notin> set post"
      by auto
    let ?h1 = "h[q := (h ! q)\<lparr>nxt := nxt (h ! a)\<rparr>]"
    have h1a: "?h1 ! a = h ! a"
      using nq by simp
    show ?thesis
    proof (cases post)
      case Nil
      with un pq na h1a have h': "h' = ?h1" and hp': "hp' = hp"
        by (auto simp: unlinkNode_def Let_def)
      have "dseg h' None hp pre' (Some q)"
        using nq 5 m' by (simp add: h')
      then show ?thesis
        using ql nq na pq' Nil snoc
        by (auto simp: h' hp' nth_list_update dseg_append)
    next
      case (Cons b post')
      with 3 have bl: "b < length h" and 4: "dseg h (Some b) (nxt (h ! b)) post' None"
        by auto
      from dist Cons snoc have nb: "b \<notin> set post'" "a \<noteq> b" "q \<noteq> b" "b \<notin> set pre'" "q \<notin> set post'"
        by auto
      from un pq na h1a Cons
      have h': "h' = ?h1[b := (?h1 ! b)\<lparr>prev := Some q\<rparr>]" and hp': "hp' = hp"
        by (auto simp: unlinkNode_def Let_def)
      have a: "dseg h' None hp pre' (Some q)"
        using nq nb 5 m' by (simp add: h')
      have b: "dseg h' (Some b) (nxt (h ! b)) post' None"
        using nq nb 4 by (simp add: h')
      show ?thesis
        using a b ql bl nq nb na pq' Cons snoc
        by (auto simp: h' hp' nth_list_update dseg_append)
    qed
  qed
qed

text \<open>Linking a fresh node in front.\<close>

lemma linkFront_list:
  assumes seg: "dseg h None hp as None"
    and dist: "distinct as"
    and li: "linkFront p (h, hp) = (h', hp')"
  shows "dseg h' None hp' (length h # as) None \<and> length h' = Suc (length h)
       \<and> pipe (h' ! length h) = p
       \<and> (\<forall>b<length h. pipe (h' ! b) = pipe (h ! b) \<and> nxt (h' ! b) = nxt (h ! b))
       \<and> (\<forall>b<length h. b \<notin> set as \<longrightarrow> h' ! b = h ! b)"
proof (cases as)
  case Nil
  with seg li show ?thesis
    by (auto simp: linkFront_def Let_def nth_append)
next
  case (Cons a as')
  with seg have hp: "hp = Some a" and al: "a < length h" and pa: "prev (h ! a) = None"
    and 1: "dseg h (Some a) (nxt (h ! a)) as' None"
    by auto
  let ?n = "\<lparr>prev = None, nxt = None, pipe = p\<rparr>"
  let ?h1 = "h @ [?n]"
  let ?h2 = "?h1[a := (?h1 ! a)\<lparr>prev := Some (length h)\<rparr>]"
  from li hp have h': "h' = ?h2[length h := (?h2 ! length h)\<lparr>nxt := Some a\<rparr>]"
    and hp': "hp' = Some (length h)"
    by (auto simp: linkFront_def Let_def)
  have bnd: "\<And>b. b \<in> set as' \<Longrightarrow> b < length h"
    using 1 dseg_bound by blast
  have 2: "dseg (h @ [?n]) (Some a) (nxt (h ! a)) as' None"
    using 1 by (rule dseg_heap_append)
  have n1: "length h \<notin> set as'"
    using bnd by auto
  have n2: "a \<notin> set as'"
    using dist Cons by simp
  have 3: "dseg h' (Some a) (nxt (h ! a)) as' None"
    using 2 n1 n2 by (simp add: h')
  show ?thesis
    using al pa Cons 3
    by (auto simp: h' hp' nth_append nth_list_update)
qed

subsection \<open>The four list operations keep the invariant\<close>

lemma removeIdleNode_fields [simp]:
  "sessions (removeIdleNode a c) = sessions c"
  "writeChan (removeIdleNode a c) = writeChan c"
  "busyPipes (removeIdleNode a c) = busyPipes c"
  "idleCount (removeIdleNode a c) = idleCount c - 1"
  by (simp_all add: removeIdleNode_def split: prod.splits)

lemma removeBusyNode_fields [simp]:
  "sessions (removeBusyNode a c) = sessions c"
  "writeChan (removeBusyNode a c) = writeChan c"
  "idlePipes (removeBusyNode a c) = idlePipes c"
  "idleCount (removeBusyNode a c) = idleCount c"
  by (simp_all add: removeBusyNode_def split: prod.splits)

lemma addIdlePipe_fields [simp]:
  "sessions (addIdlePipe p c) = sessions c"
  "writeChan (addIdlePipe p c) = writeChan c"
  "busyPipes (addIdlePipe p c) = busyPipes c"
  "idleCount (addIdlePipe p c) = idleCount c + 1"
  by (simp_all add: addIdlePipe_def split: prod.splits)

lemma addBusyPipe_fields [simp]:
  "sessions (addBusyPipe p c) = sessions c"
  "writeChan (addBusyPipe p c) = writeChan c"
  "idlePipes (addBusyPipe p c) = idlePipes c"
  "idleCount (addBusyPipe p c) = idleCount c"
  by (simp_all add: addBusyPipe_def split: prod.splits)

lemma sessionClose_fields [simp]:
  "heap (sessionClose p c) = heap c"
  "writeChan (sessionClose p c) = writeChan c"
  "idlePipes (sessionClose p c) = idlePipes c"
  "busyPipes (sessionClose p c) = busyPipes c"
  "idleCount (sessionClose p c) = idleCount c"
  "sessions (sessionClose p c) = (sessions c)(p := (sessions c p)\<lparr>isClosed := True\<rparr>)"
  by (simp_all add: sessionClose_def)

lemma poolInv_sessionClose [simp]: "poolInv (sessionClose p c) ids bs = poolInv c ids bs"
  by (simp add: poolInv_def)

lemma poolInv_sessions [simp]: "poolInv (c\<lparr>sessions := st\<rparr>) ids bs = poolInv c ids bs"
  by (simp add: poolInv_def)

lemma poolInv_bound:
  "poolInv c ids bs \<Longrightarrow> a \<in> set ids \<union> set bs \<Longrightarrow> a < length (heap c)"
  by (auto simp: poolInv_def dest: dseg_bound)

lemma poolInv_heads:
  "poolInv c ids bs \<Longrightarrow> idlePipes c = headp ids \<and> busyPipes c = headp bs"
  by (auto simp: poolInv_def dest: dseg_headp)

lemma pipeOf_cong: "pipe (heap c' ! a) = pipe (heap c ! a) \<Longrightarrow> pipeOf c' a = pipeOf c a"
  by (simp add: pipeOf_def)

lemma closedAt_cong:
  "sessions c' = sessions c \<Longrightarrow> pipe (heap c' ! a) = pipe (heap c ! a) \<Longrightarrow> closedAt c' a = closedAt c a"
  by (simp add: closedAt_def IsClosed_def pipeOf_def)

lemma removeIdleNode_inv:
  assumes inv: "poolInv c (pre @ a # post) bs"
  shows "poolInv (removeIdleNode a c) (pre @ post) bs
       \<and> nxt (heap (removeIdleNode a c) ! a) = headp post
       \<and> length (heap (removeIdleNode a c)) = length (heap c)
       \<and> (\<forall>b. pipe (heap (removeIdleNode a c) ! b) = pipe (heap c ! b))"
proof -
  obtain h' hp' where un: "unlinkNode a (heap c, idlePipes c) = (h', hp')"
    by (cases "unlinkNode a (heap c, idlePipes c)")
  from inv have seg: "dseg (heap c) None (idlePipes c) (pre @ a # post) None"
    and dist: "distinct (pre @ a # post)" and busy: "dseg (heap c) None (busyPipes c) bs None"
    and disj: "set bs \<inter> set (pre @ post) = {}" and db: "distinct bs"
    and cnt: "idleCount c = int (length (pre @ a # post))"
    by (auto simp: poolInv_def)
  note u = unlinkNode_list [OF seg dist un]
  have "dseg h' None (busyPipes c) bs None"
    using busy u disj by (intro dseg_same [OF busy]) auto
  with u dist db disj cnt show ?thesis
    by (auto simp: poolInv_def removeIdleNode_def un)
qed

lemma removeBusyNode_inv:
  assumes inv: "poolInv c ids (pre @ a # post)"
  shows "poolInv (removeBusyNode a c) ids (pre @ post)
       \<and> nxt (heap (removeBusyNode a c) ! a) = headp post
       \<and> length (heap (removeBusyNode a c)) = length (heap c)
       \<and> (\<forall>b. pipe (heap (removeBusyNode a c) ! b) = pipe (heap c ! b))"
proof -
  obtain h' hp' where un: "unlinkNode a (heap c, busyPipes c) = (h', hp')"
    by (cases "unlinkNode a (heap c, busyPipes c)")
  from inv have seg: "dseg (heap c) None (busyPipes c) (pre @ a # post) None"
    and dist: "distinct (pre @ a # post)" and idle: "dseg (heap c) None (idlePipes c) ids None"
    and disj: "set ids \<inter> set (pre @ post) = {}" and db: "distinct ids"
    and cnt: "idleCount c = int (length ids)"
    by (auto simp: poolInv_def)
  note u = unlinkNode_list [OF seg dist un]
  have "dseg h' None (idlePipes c) ids None"
    using idle u disj by (intro dseg_same [OF idle]) auto
  with u dist db disj cnt show ?thesis
    by (auto simp: poolInv_def removeBusyNode_def un)
qed

lemma addIdlePipe_inv:
  assumes inv: "poolInv c ids bs"
  shows "poolInv (addIdlePipe p c) (length (heap c) # ids) bs
       \<and> length (heap (addIdlePipe p c)) = Suc (length (heap c))
       \<and> pipe (heap (addIdlePipe p c) ! length (heap c)) = p
       \<and> (\<forall>b<length (heap c). pipe (heap (addIdlePipe p c) ! b) = pipe (heap c ! b)
              \<and> nxt (heap (addIdlePipe p c) ! b) = nxt (heap c ! b))"
proof -
  obtain h' hp' where li: "linkFront p (heap c, idlePipes c) = (h', hp')"
    by (cases "linkFront p (heap c, idlePipes c)")
  from inv have seg: "dseg (heap c) None (idlePipes c) ids None"
    and dist: "distinct ids" and busy: "dseg (heap c) None (busyPipes c) bs None"
    and disj: "set bs \<inter> set ids = {}" and db: "distinct bs"
    and cnt: "idleCount c = int (length ids)"
    by (auto simp: poolInv_def)
  note u = linkFront_list [OF seg dist li]
  have bnd: "\<And>b. b \<in> set ids \<union> set bs \<Longrightarrow> b < length (heap c)"
    using seg busy dseg_bound by blast
  have "dseg h' None (busyPipes c) bs None"
    using u disj bnd by (intro dseg_same [OF busy]) auto
  moreover have "length (heap c) \<notin> set ids \<union> set bs"
    using bnd by blast
  ultimately show ?thesis
    using u dist db disj cnt
    by (auto simp: poolInv_def addIdlePipe_def li)
qed

lemma addBusyPipe_inv:
  assumes inv: "poolInv c ids bs"
  shows "poolInv (addBusyPipe p c) ids (length (heap c) # bs)
       \<and> length (heap (addBusyPipe p c)) = Suc (length (heap c))
       \<and> pipe (heap (addBusyPipe p c) ! length (heap c)) = p
       \<and> (\<forall>b<length (heap c). pipe (heap (addBusyPipe p c) ! b) = pipe (heap c ! b)
              \<and> nxt (heap (addBusyPipe p c) ! b) = nxt (heap c ! b))"
proof -
  obtain h' hp' where li: "linkFront p (heap c, busyPipes c) = (h', hp')"
    by (cases "linkFront p (heap c, busyPipes c)")
  from inv have seg: "dseg (heap c) None (busyPipes c) bs None"
    and dist: "distinct bs" and idle: "dseg (heap c) None (idlePipes c) ids None"
    and disj: "set bs \<inter> set ids = {}" and db: "distinct ids"
    and cnt: "idleCount c = int (length ids)"
    by (auto simp: poolInv_def)
  note u = linkFront_list [OF seg dist li]
  have bnd: "\<And>b. b \<in> set ids \<union> set bs \<Longrightarrow> b < length (heap c)"
    using seg idle dseg_bound by blast
  have "dseg h' None (idlePipes c) ids None"
    using u disj bnd by (intro dseg_same [OF idle]) auto
  moreover have "length (heap c) \<notin> set ids \<union> set bs"
    using bnd by blast
  ultimately show ?thesis
    using u dist db disj cnt
    by (auto simp: poolInv_def addBusyPipe_def li)
qed

subsection \<open>The loops\<close>

text \<open>
  Each loop is taken at a cursor inside its list: \<open>pre\<close> are the nodes behind the
  cursor that stay in the list, \<open>post\<close> the nodes from the cursor on. The loop returns, and
  what it leaves is told by the functions on lists.
\<close>

lemma getIdleFastLoop_inv:
  "poolInv c ids bs \<Longrightarrow>
     \<exists>c'. getIdleFastLoop (headp ids) c = Some (headp (dropWhile (closedAt c) ids), c')
        \<and> poolInv c' (tl (dropWhile (closedAt c) ids)) bs
        \<and> sessions c' = sessions c \<and> length (heap c') = length (heap c)
        \<and> (\<forall>b. pipe (heap c' ! b) = pipe (heap c ! b))
        \<and> writeChan c' = writeChan c"
proof (induction ids arbitrary: c)
  case Nil
  then show ?case
    by (subst getIdleFastLoop.simps) simp
next
  case (Cons a rest)
  from Cons.prems have inv: "poolInv c ([] @ a # rest) bs"
    by simp
  note r = removeIdleNode_inv [OF inv]
  show ?case
  proof (cases "closedAt c a")
    case True
    let ?c1 = "removeIdleNode a c"
    from r have inv1: "poolInv ?c1 rest bs"
      by simp
    have eq: "closedAt ?c1 = closedAt c"
      using r by (intro ext closedAt_cong) auto
    from Cons.IH [OF inv1] obtain c' where
      "getIdleFastLoop (headp rest) ?c1 = Some (headp (dropWhile (closedAt c) rest), c')"
      "poolInv c' (tl (dropWhile (closedAt c) rest)) bs"
      "sessions c' = sessions c" "length (heap c') = length (heap c)"
      "\<forall>b. pipe (heap c' ! b) = pipe (heap c ! b)" "writeChan c' = writeChan c"
      using r by (auto simp: eq)
    with True r show ?thesis
      by (subst getIdleFastLoop.simps) (auto simp: closedAt_def Let_def)
  next
    case False
    with r show ?thesis
      by (subst getIdleFastLoop.simps) (auto simp: closedAt_def)
  qed
qed

lemma cleanIdleLoop_inv:
  "poolInv c (pre @ post) bs \<Longrightarrow>
     \<exists>c' post'. cleanIdleLoop (headp post) c = Some c'
        \<and> poolInv c' (pre @ post') bs
        \<and> scanIdle (sessions c) (idleCount c) (map (pipeOf c) post)
            = (sessions c', idleCount c', map (pipeOf c) post')
        \<and> length (heap c') = length (heap c)
        \<and> (\<forall>b. pipe (heap c' ! b) = pipe (heap c ! b))
        \<and> writeChan c' = writeChan c"
proof (induction post arbitrary: pre c)
  case Nil
  then show ?case
    by (subst cleanIdleLoop.simps) simp
next
  case (Cons a rest)
  note r = removeIdleNode_inv [OF Cons.prems]
  let ?p = "pipeOf c a"
  let ?r = "removeIdleNode a c"
  have pr: "pipeOf ?r = pipeOf c"
    using r by (intro ext pipeOf_cong) simp
  show ?case
  proof (cases "IsClosed c ?p")
    case True
    from r have inv1: "poolInv ?r (pre @ rest) bs"
      by simp
    from Cons.IH [OF inv1] obtain c' post' where
      ih: "cleanIdleLoop (headp rest) ?r = Some c'" "poolInv c' (pre @ post') bs"
      "scanIdle (sessions ?r) (idleCount ?r) (map (pipeOf ?r) rest)
         = (sessions c', idleCount c', map (pipeOf ?r) post')"
      "length (heap c') = length (heap ?r)" "\<forall>b. pipe (heap c' ! b) = pipe (heap ?r ! b)"
      "writeChan c' = writeChan ?r"
      by blast
    have step: "cleanIdleLoop (Some a) c = cleanIdleLoop (headp rest) ?r"
      using True r by (subst cleanIdleLoop.simps) (simp add: Let_def)
    have sc: "scanIdle (sessions c) (idleCount c) (map (pipeOf c) (a # rest))
                = (sessions c', idleCount c', map (pipeOf c) post')"
      using True ih(3) by (simp add: pr IsClosed_def)
    show ?thesis
      using ih r sc by (intro exI [of _ c'] exI [of _ post']) (simp add: step)
  next
    case False
    show ?thesis
    proof (cases "NumStreams c ?p = 0 \<and> idleCount c > maxIdlePipes")
      case True
      let ?c1 = "sessionClose ?p ?r"
      from r have inv1: "poolInv ?c1 (pre @ rest) bs"
        by simp
      have p1: "pipeOf ?c1 = pipeOf c"
        using r by (intro ext pipeOf_cong) simp
      from Cons.IH [OF inv1] obtain c' post' where
        ih: "cleanIdleLoop (headp rest) ?c1 = Some c'" "poolInv c' (pre @ post') bs"
        "scanIdle (sessions ?c1) (idleCount ?c1) (map (pipeOf ?c1) rest)
           = (sessions c', idleCount c', map (pipeOf ?c1) post')"
        "length (heap c') = length (heap ?c1)" "\<forall>b. pipe (heap c' ! b) = pipe (heap ?c1 ! b)"
        "writeChan c' = writeChan ?c1"
        by blast
      have step: "cleanIdleLoop (Some a) c = cleanIdleLoop (headp rest) ?c1"
        using True False r by (subst cleanIdleLoop.simps) (simp add: Let_def pr)
      have sc: "scanIdle (sessions c) (idleCount c) (map (pipeOf c) (a # rest))
                  = (sessions c', idleCount c', map (pipeOf c) post')"
        using True False ih(3) by (simp add: p1 IsClosed_def NumStreams_def)
      show ?thesis
        using ih r sc by (intro exI [of _ c'] exI [of _ post']) (simp add: step)
    next
      case keep: False
      from Cons.prems have inv1: "poolInv c ((pre @ [a]) @ rest) bs"
        by simp
      have cur: "nxt (heap c ! a) = headp rest"
        using Cons.prems by (auto simp: poolInv_def dest: dseg_nxt_mid)
      from Cons.IH [OF inv1] obtain c' post' where
        ih: "cleanIdleLoop (headp rest) c = Some c'" "poolInv c' ((pre @ [a]) @ post') bs"
        "scanIdle (sessions c) (idleCount c) (map (pipeOf c) rest)
           = (sessions c', idleCount c', map (pipeOf c) post')"
        "length (heap c') = length (heap c)" "\<forall>b. pipe (heap c' ! b) = pipe (heap c ! b)"
        "writeChan c' = writeChan c"
        by blast
      have step: "cleanIdleLoop (Some a) c = cleanIdleLoop (headp rest) c"
        using keep False cur by (subst cleanIdleLoop.simps) (auto simp: Let_def)
      have sc: "scanIdle (sessions c) (idleCount c) (map (pipeOf c) (a # rest))
                  = (sessions c', idleCount c', map (pipeOf c) (a # post'))"
        using keep False ih(3) by (auto simp: IsClosed_def NumStreams_def)
      show ?thesis
        using ih sc by (intro exI [of _ c'] exI [of _ "a # post'"]) (simp add: step)
    qed
  qed
qed

lemma cleanBusyLoop_inv:
  "poolInv c ids (pre @ post) \<Longrightarrow>
     \<exists>c' new. cleanBusyLoop (headp post) c = Some c'
        \<and> poolInv c' (new @ ids) (pre @ filter (keepAt c) post)
        \<and> map (pipeOf c') new = rev (filter (busyMove (sessions c)) (map (pipeOf c) post))
        \<and> sessions c' = sessions c
        \<and> length (heap c) \<le> length (heap c')
        \<and> (\<forall>b<length (heap c). pipe (heap c' ! b) = pipe (heap c ! b))
        \<and> writeChan c' = writeChan c"
proof (induction post arbitrary: pre ids c)
  case Nil
  then show ?case
    by (subst cleanBusyLoop.simps) simp
next
  case (Cons a rest)
  note r = removeBusyNode_inv [OF Cons.prems]
  let ?p = "pipeOf c a"
  let ?r = "removeBusyNode a c"
  have pr: "pipeOf ?r = pipeOf c"
    using r by (intro ext pipeOf_cong) simp
  have kr: "keepAt ?r = keepAt c"
    by (intro ext) (simp add: keepAt_def pr)
  have al: "a < length (heap c)"
    using Cons.prems by (auto dest: poolInv_bound)
  have bnd: "\<And>b. b \<in> set rest \<Longrightarrow> b < length (heap c)"
    using Cons.prems by (auto dest: poolInv_bound)
  show ?case
  proof (cases "IsClosed c ?p")
    case True
    from r have inv1: "poolInv ?r ids (pre @ rest)"
      by simp
    from Cons.IH [OF inv1] obtain c' new where
      ih: "cleanBusyLoop (headp rest) ?r = Some c'"
      "poolInv c' (new @ ids) (pre @ filter (keepAt ?r) rest)"
      "map (pipeOf c') new = rev (filter (busyMove (sessions ?r)) (map (pipeOf ?r) rest))"
      "sessions c' = sessions ?r" "length (heap ?r) \<le> length (heap c')"
      "\<forall>b<length (heap ?r). pipe (heap c' ! b) = pipe (heap ?r ! b)"
      "writeChan c' = writeChan ?r"
      by blast
    have step: "cleanBusyLoop (Some a) c = cleanBusyLoop (headp rest) ?r"
      using True r by (subst cleanBusyLoop.simps) (simp add: Let_def)
    have k: "\<not> keepAt c a" "\<not> busyMove (sessions c) ?p"
      using True by (simp_all add: keepAt_def busyKeep_def busyMove_def IsClosed_def)
    show ?thesis
      using ih r k by (intro exI [of _ c'] exI [of _ new]) (simp add: step kr pr)
  next
    case False
    show ?thesis
    proof (cases "NumStreams c ?p < maxStreams")
      case True
      let ?c1 = "addIdlePipe ?p ?r"
      let ?n = "length (heap c)"
      from r have inv0: "poolInv ?r ids (pre @ rest)" and len: "length (heap ?r) = ?n"
        by simp_all
      note ad = addIdlePipe_inv [OF inv0, of ?p]
      from ad len have inv1: "poolInv ?c1 (?n # ids) (pre @ rest)"
        by simp
      from Cons.IH [OF inv1] obtain c' new where
        ih: "cleanBusyLoop (headp rest) ?c1 = Some c'"
        "poolInv c' (new @ ?n # ids) (pre @ filter (keepAt ?c1) rest)"
        "map (pipeOf c') new = rev (filter (busyMove (sessions ?c1)) (map (pipeOf ?c1) rest))"
        "sessions c' = sessions ?c1" "length (heap ?c1) \<le> length (heap c')"
        "\<forall>b<length (heap ?c1). pipe (heap c' ! b) = pipe (heap ?c1 ! b)"
        "writeChan c' = writeChan ?c1"
        by blast
      have p1: "\<And>b. b < ?n \<Longrightarrow> pipeOf ?c1 b = pipeOf c b"
        using ad len r by (simp add: pipeOf_def)
      have cur: "nxt (heap ?c1 ! a) = headp rest"
        using ad len r al by simp
      have step: "cleanBusyLoop (Some a) c = cleanBusyLoop (headp rest) ?c1"
        using True False cur by (subst cleanBusyLoop.simps) (simp add: Let_def pr)
      have k: "\<not> keepAt c a" "busyMove (sessions c) ?p"
        using True False
        by (simp_all add: keepAt_def busyKeep_def busyMove_def IsClosed_def NumStreams_def)
      have f1: "filter (keepAt ?c1) rest = filter (keepAt c) rest"
        using bnd p1 by (intro filter_cong) (simp_all add: keepAt_def)
      have m1: "map (pipeOf ?c1) rest = map (pipeOf c) rest"
        using bnd p1 by (intro map_cong) simp_all
      have pn: "pipeOf c' ?n = ?p"
        using ih(6) ad len by (simp add: pipeOf_def)
      have pk: "\<forall>b<?n. pipe (heap c' ! b) = pipe (heap c ! b)"
        using ih(6) ad len r by simp
      show ?thesis
        using ih ad len k pn pk
        by (intro exI [of _ c'] exI [of _ "new @ [?n]"]) (simp add: step f1 m1)
    next
      case keep: False
      from Cons.prems have inv1: "poolInv c ids ((pre @ [a]) @ rest)"
        by simp
      have cur: "nxt (heap c ! a) = headp rest"
        using Cons.prems by (auto simp: poolInv_def dest: dseg_nxt_mid)
      from Cons.IH [OF inv1] obtain c' new where
        ih: "cleanBusyLoop (headp rest) c = Some c'"
        "poolInv c' (new @ ids) ((pre @ [a]) @ filter (keepAt c) rest)"
        "map (pipeOf c') new = rev (filter (busyMove (sessions c)) (map (pipeOf c) rest))"
        "sessions c' = sessions c" "length (heap c) \<le> length (heap c')"
        "\<forall>b<length (heap c). pipe (heap c' ! b) = pipe (heap c ! b)"
        "writeChan c' = writeChan c"
        by blast
      have step: "cleanBusyLoop (Some a) c = cleanBusyLoop (headp rest) c"
        using keep False cur by (subst cleanBusyLoop.simps) (auto simp: Let_def)
      have k: "keepAt c a" "\<not> busyMove (sessions c) ?p"
        using keep False
        by (simp_all add: keepAt_def busyKeep_def busyMove_def IsClosed_def NumStreams_def)
      show ?thesis
        using ih k by (intro exI [of _ c'] exI [of _ new]) (simp add: step)
    qed
  qed
qed

subsection \<open>The computed lists\<close>

lemma nodesFrom_dseg:
  "dseg h pr p as None \<Longrightarrow> length as \<le> n \<Longrightarrow> nodesFrom n h p = Some as"
proof (induction as arbitrary: pr p n)
  case Nil
  then show ?case by simp
next
  case (Cons a as)
  then obtain m where n: "n = Suc m"
    by (cases n) auto
  with Cons show ?case
    by auto
qed

lemma distinct_bounded_length:
  assumes "distinct as" and "\<And>a. a \<in> set as \<Longrightarrow> a < n"
  shows "length as \<le> n"
proof -
  have "set as \<subseteq> {..<n}"
    using assms(2) by auto
  then have "card (set as) \<le> card {..<n}"
    by (intro card_mono) auto
  with assms(1) show ?thesis
    by (simp add: distinct_card)
qed

lemma poolInv_nodes:
  assumes "poolInv c ids bs"
  shows "idleNodes c = Some ids" and "busyNodes c = Some bs"
proof -
  from assms have "length ids \<le> length (heap c)"
    by (intro distinct_bounded_length) (auto simp: poolInv_def dest: dseg_bound)
  with assms show "idleNodes c = Some ids"
    by (auto simp: idleNodes_def poolInv_def intro: nodesFrom_dseg)
  from assms have "length bs \<le> length (heap c)"
    by (intro distinct_bounded_length) (auto simp: poolInv_def dest: dseg_bound)
  with assms show "busyNodes c = Some bs"
    by (auto simp: busyNodes_def poolInv_def intro: nodesFrom_dseg)
qed

lemma poolOK_iff: "poolOK c \<longleftrightarrow> (\<exists>ids bs. poolInv c ids bs)"
  by (auto simp: poolOK_def poolInv_nodes split: option.splits)

lemma poolInv_OK: "poolInv c ids bs \<Longrightarrow> poolOK c"
  by (auto simp: poolOK_iff)

lemma poolOK_countOK: "poolOK c \<Longrightarrow> countOK c"
  by (auto simp: poolOK_def countOK_def poolInv_def split: option.splits)


lemma getIdleFast_inv:
  assumes "poolInv c ids bs"
  shows "\<exists>c'. getIdleFast c = Some (headp (dropWhile (closedAt c) ids), c')
        \<and> poolInv c' (tl (dropWhile (closedAt c) ids)) bs
        \<and> sessions c' = sessions c \<and> length (heap c') = length (heap c)
        \<and> (\<forall>b. pipe (heap c' ! b) = pipe (heap c ! b))
        \<and> writeChan c' = writeChan c"
  using getIdleFastLoop_inv [OF assms] poolInv_heads [OF assms]
  by (simp add: getIdleFast_def)

lemma clean_inv:
  assumes inv: "poolInv c ids bs"
  shows "\<exists>c' ids'. clean c = Some c'
        \<and> poolInv c' ids' (filter (keepAt c) bs)
        \<and> scanIdle (sessions c) (idleCount c + int (length (movedOf c bs)))
             (rev (movedOf c bs) @ map (pipeOf c) ids)
            = (sessions c', idleCount c', map (pipeOf c') ids')
        \<and> length (heap c) \<le> length (heap c')
        \<and> (\<forall>b<length (heap c). pipe (heap c' ! b) = pipe (heap c ! b))
        \<and> writeChan c' = writeChan c"
proof -
  from inv have inv0: "poolInv c ids ([] @ bs)"
    by simp
  from cleanBusyLoop_inv [OF inv0] poolInv_heads [OF inv] obtain c1 new where
    b: "cleanBusyLoop (busyPipes c) c = Some c1"
    "poolInv c1 (new @ ids) (filter (keepAt c) bs)"
    "map (pipeOf c1) new = rev (movedOf c bs)"
    "sessions c1 = sessions c" "length (heap c) \<le> length (heap c1)"
    "\<forall>b<length (heap c). pipe (heap c1 ! b) = pipe (heap c ! b)"
    "writeChan c1 = writeChan c"
    by (auto simp: movedOf_def)
  from b(2) have inv1: "poolInv c1 ([] @ (new @ ids)) (filter (keepAt c) bs)"
    by simp
  from cleanIdleLoop_inv [OF inv1] poolInv_heads [OF b(2)] obtain c2 ids' where
    i: "cleanIdleLoop (idlePipes c1) c1 = Some c2"
    "poolInv c2 ids' (filter (keepAt c) bs)"
    "scanIdle (sessions c1) (idleCount c1) (map (pipeOf c1) (new @ ids))
       = (sessions c2, idleCount c2, map (pipeOf c1) ids')"
    "length (heap c2) = length (heap c1)"
    "\<forall>b. pipe (heap c2 ! b) = pipe (heap c1 ! b)"
    "writeChan c2 = writeChan c1"
    by auto
  have p21: "pipeOf c2 = pipeOf c1"
    using i(5) by (intro ext pipeOf_cong) simp
  have m: "map (pipeOf c1) ids = map (pipeOf c) ids"
    using b(6) inv by (intro map_cong) (auto simp: pipeOf_def dest: poolInv_bound)
  have cnt: "idleCount c1 = idleCount c + int (length (movedOf c bs))"
  proof -
    from b(2) have "idleCount c1 = int (length (new @ ids))"
      by (simp add: poolInv_def)
    moreover have "length new = length (movedOf c bs)"
      using b(3) by (metis length_map length_rev)
    moreover from inv have "idleCount c = int (length ids)"
      by (simp add: poolInv_def)
    ultimately show ?thesis
      by simp
  qed
  from i(3) have sc: "scanIdle (sessions c) (idleCount c + int (length (movedOf c bs)))
             (rev (movedOf c bs) @ map (pipeOf c) ids)
            = (sessions c2, idleCount c2, map (pipeOf c2) ids')"
    by (simp only: map_append b(3) b(4) cnt m p21)
  have "clean c = Some c2"
    using b(1) i(1) by (simp add: clean_def)
  with i b sc show ?thesis
    by (intro exI [of _ c2] exI [of _ ids']) simp
qed

subsection \<open>The scan of the idle list\<close>

lemma scanIdle_ConsE:
  assumes "scanIdle st n (q # ps) = (st', n', ps')"
  obtains (closed) "isClosed (st q)" "scanIdle st (n - 1) ps = (st', n', ps')"
  | (evict) "\<not> isClosed (st q)" "numStreams (st q) = 0" "n > maxIdlePipes"
      "scanIdle (st(q := (st q)\<lparr>isClosed := True\<rparr>)) (n - 1) ps = (st', n', ps')"
  | (keep) ps1 where "\<not> isClosed (st q)" "\<not> (numStreams (st q) = 0 \<and> n > maxIdlePipes)"
      "scanIdle st n ps = (st', n', ps1)" "ps' = q # ps1"
  using assms by (auto split: if_splits prod.splits)


lemma scanIdle_count:
  "scanIdle st n ps = (st', n', ps') \<Longrightarrow> n' = n - int (length ps) + int (length ps')"
proof (induction ps arbitrary: st n st' n' ps')
  case Nil
  then show ?case by simp
next
  case (Cons q ps)
  from Cons.prems show ?case
  proof (cases rule: scanIdle_ConsE)
    case closed
    from Cons.IH [OF closed(2)] show ?thesis by simp
  next
    case evict
    from Cons.IH [OF evict(4)] show ?thesis by simp
  next
    case (keep ps1)
    from Cons.IH [OF keep(3)] keep(4) show ?thesis by simp
  qed
qed







subsection \<open>The idle counter\<close>

lemma applyOp_poolOK:
  assumes ok: "poolOK c" and li: "linked x c"
  shows "\<exists>c'. applyOp x c = Some c' \<and> poolOK c'"
proof -
  from ok obtain ids bs where inv: "poolInv c ids bs"
    by (auto simp: poolOK_iff)
  show ?thesis
  proof (cases x)
    case (AddIdlePipe p)
    with addIdlePipe_inv [OF inv, of p] show ?thesis
      by (auto intro: poolInv_OK)
  next
    case (AddBusyPipe p)
    with addBusyPipe_inv [OF inv, of p] show ?thesis
      by (auto intro: poolInv_OK)
  next
    case (RemoveIdleNode a)
    with li inv have "a \<in> set ids"
      by (simp add: linked_def poolInv_nodes)
    then obtain pre post where "ids = pre @ a # post"
      by (auto dest: split_list)
    with inv removeIdleNode_inv [of c pre a post bs] RemoveIdleNode show ?thesis
      by (auto intro: poolInv_OK)
  next
    case GetIdleFast
    with getIdleFast_inv [OF inv] show ?thesis
      by (auto intro: poolInv_OK)
  next
    case Clean
    with clean_inv [OF inv] show ?thesis
      by (auto intro: poolInv_OK)
  next
    case (MuxReports st)
    with inv show ?thesis
      by (auto intro: poolInv_OK [of _ ids bs])
  qed
qed

text \<open>
  C4. From a state with well-formed lists, after each operation of every sequence of
  \<open>addIdlePipe\<close>, \<open>addBusyPipe\<close>, \<open>removeIdleNode\<close> (of a node of the idle list),
  \<open>getIdleFast\<close> and \<open>clean\<close>, whatever the multiplexer reports in between, every
  operation returns, and \<open>idleCount\<close> is the number of nodes reachable from \<open>idlePipes\<close>.
\<close>

theorem idleCount_counts_idle_nodes:
  assumes "poolOK c" and "admissible xs c"
  shows "\<exists>cs. runOps xs c = Some cs \<and> length cs = length xs
           \<and> (\<forall>c' \<in> set cs. poolOK c' \<and> countOK c')"
  using assms
proof (induction xs arbitrary: c)
  case Nil
  then show ?case by simp
next
  case (Cons x xs)
  from Cons.prems have li: "linked x c"
    by simp
  from applyOp_poolOK [OF Cons.prems(1) li] obtain c' where
    a: "applyOp x c = Some c'" and ok': "poolOK c'"
    by blast
  with Cons.prems have "admissible xs c'"
    by simp
  from Cons.IH [OF ok' this] obtain cs where
    "runOps xs c' = Some cs" "length cs = length xs" "\<forall>c' \<in> set cs. poolOK c' \<and> countOK c'"
    by blast
  with a ok' show ?case
    by (auto simp: poolOK_countOK)
qed

theorem idleCount_counts_idle_nodes_witness:
  "map_option (map countOK)
     (runOps [AddIdlePipe 1, AddIdlePipe 2, AddIdlePipe 3, AddBusyPipe 4,
        MuxReports (\<lambda>p. \<lparr>isClosed = (p = 2), numStreams = (if p = 4 then 2 else 0)\<rparr>),
        Clean, RemoveIdleNode 0, GetIdleFast] (NewControl ''none''))
     = Some (replicate 8 True)
   \<and> map_option (map idleCount)
     (runOps [AddIdlePipe 1, AddIdlePipe 2, AddIdlePipe 3, AddBusyPipe 4,
        MuxReports (\<lambda>p. \<lparr>isClosed = (p = 2), numStreams = (if p = 4 then 2 else 0)\<rparr>),
        Clean, RemoveIdleNode 0, GetIdleFast] (NewControl ''none''))
     = Some [1, 2, 3, 3, 3, 2, 1, 0]"
proof -
  let ?xs = "[AddIdlePipe 1, AddIdlePipe 2, AddIdlePipe 3, AddBusyPipe 4,
        MuxReports (\<lambda>p. \<lparr>isClosed = (p = 2), numStreams = (if p = 4 then 2 else 0)\<rparr>),
        Clean, RemoveIdleNode 0, GetIdleFast]"
  have h1: "poolOK (NewControl ''none'')"
    by code_simp
  have h2: "admissible ?xs (NewControl ''none'')"
    by code_simp
  from idleCount_counts_idle_nodes [OF h1 h2] obtain cs where
    r: "runOps ?xs (NewControl ''none'') = Some cs" and l': "length cs = length ?xs"
    and a: "\<forall>c' \<in> set cs. poolOK c' \<and> countOK c'"
    by blast
  from l' have l: "length cs = 8"
    by simp
  from a have "replicate (length (map countOK cs)) True = map countOK cs"
    by (intro replicate_length_same) auto
  with l have m: "map countOK cs = replicate 8 True"
    by simp
  have 1: "map_option (map countOK) (runOps ?xs (NewControl ''none'')) = Some (replicate 8 True)"
    unfolding r using m by simp
  have 2: "map_option (map idleCount) (runOps ?xs (NewControl ''none'')) = Some [1, 2, 3, 3, 3, 2, 1, 0]"
    by code_simp
  from 1 2 show ?thesis
    by (rule conjI)
qed

subsection \<open>clean\<close>



subsection \<open>The Prepare phase of pipeManage\<close>

lemma sendWriteChan_room:
  "length (writeChan c) < writeChanCap \<Longrightarrow>
     sendWriteChan x c = Some (c\<lparr>writeChan := writeChan c @ [x]\<rparr>)"
  by (simp add: sendWriteChan_def)

text \<open>
  C1, as the source has it. In a pass through \<open>Prepare\<close> that needs a session, from
  well-formed lists and with room in the write queue: if the fast pop finds a session,
  that session becomes \<open>available\<close> and nothing is enqueued; if it finds none, the manager
  runs \<open>clean\<close>, retries the fast pop and then enqueues exactly one \<open>PIPE_REQ\<close> frame,
  whether or not the retry has found a session; a session found by the retry becomes
  \<open>available\<close>, and only without one does the manager go on to wait.
\<close>

theorem prepare_pipe_req:
  assumes ok: "poolOK c" and room: "length (writeChan c) < writeChanCap"
    and need: "available m = None \<or> IsClosed c (the (available m))"
  shows "\<exists>r c1. getIdleFast c = Some (r, c1) \<and>
     (case r of
        Some a \<Rightarrow>
          prepare (m, c) = Some (\<lparr>loc = AtAvailable, available = Some (pipeOf c1 a)\<rparr>, c1)
          \<and> writeChan c1 = writeChan c
      | None \<Rightarrow>
          (\<exists>c2 r' c3. clean c1 = Some c2 \<and> getIdleFast c2 = Some (r', c3)
             \<and> writeChan c3 = writeChan c
             \<and> prepare (m, c) =
                 Some (\<lparr>loc = (if r' = None then AtWait else AtAvailable),
                         available = map_option (pipeOf c3) r'\<rparr>,
                       c3\<lparr>writeChan := writeChan c @ [\<lparr>mType = TypePipeReq, body = NilBody\<rparr>]\<rparr>)))"
proof -
  from ok obtain ids bs where inv: "poolInv c ids bs"
    by (auto simp: poolOK_iff)
  from getIdleFast_inv [OF inv] obtain r c1 where
    g1: "getIdleFast c = Some (r, c1)" and inv1: "poolInv c1 (tl (dropWhile (closedAt c) ids)) bs"
    and w1: "writeChan c1 = writeChan c"
    by blast
  show ?thesis
  proof (cases r)
    case (Some a)
    with g1 w1 need show ?thesis
      by (auto simp: prepare_def)
  next
    case None
    from clean_inv [OF inv1] obtain c2 ids2 where
      cl: "clean c1 = Some c2" and inv2: "poolInv c2 ids2 (filter (keepAt c1) bs)"
      and w2: "writeChan c2 = writeChan c1"
      by blast
    from getIdleFast_inv [OF inv2] obtain r' c3 where
      g2: "getIdleFast c2 = Some (r', c3)" and w3: "writeChan c3 = writeChan c2"
      by blast
    let ?req = "\<lparr>mType = TypePipeReq, body = NilBody\<rparr>"
    have s: "sendWriteChan ?req c3 = Some (c3\<lparr>writeChan := writeChan c @ [?req]\<rparr>)"
      using room w1 w2 w3 by (simp add: sendWriteChan_room)
    have "prepare (m, c) =
            Some (\<lparr>loc = (if r' = None then AtWait else AtAvailable),
                    available = map_option (pipeOf c3) r'\<rparr>,
                  c3\<lparr>writeChan := writeChan c @ [?req]\<rparr>)"
      using need g1 None cl g2 s
      by (cases r') (auto simp: prepare_def pipeOf_def)
    with g1 None cl g2 w1 w2 w3 show ?thesis
      by auto
  qed
qed

theorem prepare_pipe_req_witness:
  "map_option (writeChan \<circ> snd)
     (prepare (\<lparr>loc = AtPrepare, available = None\<rparr>, NewControl ''none''))
   = Some [\<lparr>mType = TypePipeReq, body = NilBody\<rparr>]"
proof -
  let ?c = "NewControl ''none''"
  let ?m = "\<lparr>loc = AtPrepare, available = None\<rparr>"
  have h1: "poolOK ?c"
    by code_simp
  have h2: "length (writeChan ?c) < writeChanCap"
    by code_simp
  have h3: "available ?m = None \<or> IsClosed ?c (the (available ?m))"
    by simp
  have f: "map_option fst (getIdleFast ?c) = Some None"
    by code_simp
  have w: "writeChan ?c = []"
    by (simp add: NewControl_def)
  from prepare_pipe_req [OF h1 h2 h3] obtain r c1 where
    g: "getIdleFast ?c = Some (r, c1)" and
    c: "case r of
        Some a \<Rightarrow>
          prepare (?m, ?c) = Some (\<lparr>loc = AtAvailable, available = Some (pipeOf c1 a)\<rparr>, c1)
          \<and> writeChan c1 = writeChan ?c
      | None \<Rightarrow>
          (\<exists>c2 r' c3. clean c1 = Some c2 \<and> getIdleFast c2 = Some (r', c3)
             \<and> writeChan c3 = writeChan ?c
             \<and> prepare (?m, ?c) =
                 Some (\<lparr>loc = (if r' = None then AtWait else AtAvailable),
                         available = map_option (pipeOf c3) r'\<rparr>,
                       c3\<lparr>writeChan := writeChan ?c @ [\<lparr>mType = TypePipeReq, body = NilBody\<rparr>]\<rparr>))"
    by blast
  from f g have "r = None"
    by simp
  with c obtain c3 x where
    "prepare (?m, ?c) = Some (x, c3\<lparr>writeChan := writeChan ?c @ [\<lparr>mType = TypePipeReq, body = NilBody\<rparr>]\<rparr>)"
    by auto
  then show ?thesis
    by (simp add: w)
qed

text \<open>
  The claim as first stated has no \<open>PIPE_REQ\<close> in a pass whose retry finds a session.
  With one drained session in \<open>busyPipes\<close>: the fast pop finds nothing, \<open>clean\<close> moves the
  session to \<open>idlePipes\<close>, the retry finds it, it becomes \<open>available\<close>, and the queue,
  empty before, holds a \<open>PIPE_REQ\<close>.
\<close>

theorem prepare_pipe_req_counterexample:
  "map_option fst (getIdleFast (addBusyPipe 7 (NewControl ''none''))) = Some None
   \<and> map_option fst (clean (addBusyPipe 7 (NewControl ''none'')) \<bind> getIdleFast) = Some (Some 1)
   \<and> map_option (available \<circ> fst)
        (prepare (\<lparr>loc = AtPrepare, available = None\<rparr>, addBusyPipe 7 (NewControl ''none'')))
       = Some (Some 7)
   \<and> writeChan (addBusyPipe 7 (NewControl ''none'')) = []
   \<and> map_option (writeChan \<circ> snd)
        (prepare (\<lparr>loc = AtPrepare, available = None\<rparr>, addBusyPipe 7 (NewControl ''none'')))
       = Some [\<lparr>mType = TypePipeReq, body = NilBody\<rparr>]"
  by code_simp

subsection \<open>Teardown\<close>


end
